theory Spec2Isabelle
  imports Complex_Main "HOL-Library.Word" "HOL-Library.Log_Nat"
begin

section \<open>Binary floating point of the target\<close>

text \<open>
  \<^verbatim>\<open>statistics.h\<close> is compiled for the RP2040 (ARM EABI): \<^verbatim>\<open>float\<close> is IEEE 754
  binary32, \<^verbatim>\<open>double\<close> and \<^verbatim>\<open>long double\<close> are both binary64, every operation is
  evaluated in the format of its operands and rounded to nearest, ties to even.
  A floating value is a rational number, an infinity or a NaN. The sign of zero is not
  tracked: the only divisors in this file come from unsigned counters.
\<close>

datatype fpval = Fin rat | PInf | NInf | NaN

text \<open>Round a rational to the nearest integer, ties to the even one.\<close>

definition rne :: "rat \<Rightarrow> int" where
  "rne x = (let f = \<lfloor>x\<rfloor>; r = x - of_int f in
     if r < 1 / 2 then f
     else if 1 / 2 < r then f + 1
     else if even f then f else f + 1)"

text \<open>
  Round a magnitude to precision \<open>p\<close>, where \<open>2 ^ b\<close> scales the least positive
  (subnormal) value to 1. After scaling, a value of bit length \<open>k\<close> keeps its top \<open>p\<close>
  bits: the quantum is \<open>2 ^ (k - p)\<close>, and 1 in the subnormal range, where
  \<open>k - p\<close> is negative and \<open>nat\<close> makes it 0.
\<close>

definition round_mag :: "nat \<Rightarrow> nat \<Rightarrow> rat \<Rightarrow> rat" where
  "round_mag p b x = (let y = x * 2 ^ b;
       q = 2 ^ nat (bitlen \<lfloor>y\<rfloor> - int p)
     in of_int (rne (y / q)) * q / 2 ^ b)"

definition fp_round :: "nat \<Rightarrow> nat \<Rightarrow> nat \<Rightarrow> rat \<Rightarrow> fpval" where
  "fp_round p b emax x = (let r = round_mag p b \<bar>x\<bar> in
     if 2 ^ Suc emax \<le> r then (if x < 0 then NInf else PInf)
     else Fin (if x < 0 then - r else r))"

definition to_float :: "rat \<Rightarrow> fpval" where
  "to_float = fp_round 24 149 127"

definition to_double :: "rat \<Rightarrow> fpval" where
  "to_double = fp_round 53 1074 1023"

fun is_neg :: "fpval \<Rightarrow> bool" where
  "is_neg (Fin x) = (x < 0)"
| "is_neg NInf = True"
| "is_neg PInf = False"
| "is_neg NaN = False"

definition inf_of_sign :: "bool \<Rightarrow> fpval" where
  "inf_of_sign neg = (if neg then NInf else PInf)"

fun fp_neg :: "fpval \<Rightarrow> fpval" where
  "fp_neg (Fin x) = Fin (- x)"
| "fp_neg PInf = NInf"
| "fp_neg NInf = PInf"
| "fp_neg NaN = NaN"

fun fp_abs :: "fpval \<Rightarrow> fpval" where
  "fp_abs (Fin x) = Fin \<bar>x\<bar>"
| "fp_abs PInf = PInf"
| "fp_abs NInf = PInf"
| "fp_abs NaN = NaN"

fun fp_add :: "(rat \<Rightarrow> fpval) \<Rightarrow> fpval \<Rightarrow> fpval \<Rightarrow> fpval" where
  "fp_add rnd NaN b = NaN"
| "fp_add rnd a NaN = NaN"
| "fp_add rnd (Fin x) (Fin y) = rnd (x + y)"
| "fp_add rnd PInf NInf = NaN"
| "fp_add rnd NInf PInf = NaN"
| "fp_add rnd (Fin x) b = b"
| "fp_add rnd a b = a"

definition fp_sub :: "(rat \<Rightarrow> fpval) \<Rightarrow> fpval \<Rightarrow> fpval \<Rightarrow> fpval" where
  "fp_sub rnd a b = fp_add rnd a (fp_neg b)"

fun fp_mul :: "(rat \<Rightarrow> fpval) \<Rightarrow> fpval \<Rightarrow> fpval \<Rightarrow> fpval" where
  "fp_mul rnd NaN b = NaN"
| "fp_mul rnd a NaN = NaN"
| "fp_mul rnd (Fin x) (Fin y) = rnd (x * y)"
| "fp_mul rnd (Fin x) b = (if x = 0 then NaN else inf_of_sign ((x < 0) \<noteq> is_neg b))"
| "fp_mul rnd a (Fin y) = (if y = 0 then NaN else inf_of_sign (is_neg a \<noteq> (y < 0)))"
| "fp_mul rnd a b = inf_of_sign (is_neg a \<noteq> is_neg b)"

fun fp_div :: "(rat \<Rightarrow> fpval) \<Rightarrow> fpval \<Rightarrow> fpval \<Rightarrow> fpval" where
  "fp_div rnd NaN b = NaN"
| "fp_div rnd a NaN = NaN"
| "fp_div rnd (Fin x) (Fin y) =
     (if y = 0 then (if x = 0 then NaN else inf_of_sign (x < 0)) else rnd (x / y))"
| "fp_div rnd (Fin x) b = Fin 0"
| "fp_div rnd a (Fin y) = inf_of_sign (is_neg a \<noteq> (y < 0))"
| "fp_div rnd a b = NaN"

text \<open>The comparison \<^verbatim>\<open><\<close>: false as soon as one side is a NaN.\<close>

fun fp_less :: "fpval \<Rightarrow> fpval \<Rightarrow> bool" where
  "fp_less NaN b = False"
| "fp_less a NaN = False"
| "fp_less (Fin x) (Fin y) = (x < y)"
| "fp_less a PInf = (a \<noteq> PInf)"
| "fp_less NInf b = (b \<noteq> NInf)"
| "fp_less a b = False"

subsection \<open>Conversions\<close>

type_synonym u16 = "16 word"
type_synonym u32 = "32 word"
type_synonym u64 = "64 word"

text \<open>
  A conversion from a floating type to an unsigned integer truncates towards zero; it is
  undefined behaviour when the truncated value does not fit, and for infinities and NaN.
  Integer division by zero is undefined behaviour as well. Both are faults of the model.
\<close>

datatype fault = FloatToIntUndefined | DivisionByZero

definition double_of_u64 :: "u64 \<Rightarrow> fpval" where
  "double_of_u64 w = to_double (of_nat (unat w))"

fun float_of_double :: "fpval \<Rightarrow> fpval" where
  "float_of_double (Fin x) = to_float x"
| "float_of_double a = a"

definition trunc_rat :: "rat \<Rightarrow> int" where
  "trunc_rat x = (if 0 \<le> x then \<lfloor>x\<rfloor> else \<lceil>x\<rceil>)"

fun u32_of_double :: "fpval \<Rightarrow> fault + u32" where
  "u32_of_double (Fin x) =
     (let t = trunc_rat x in
      if 0 \<le> t \<and> t < 2 ^ 32 then Inr (word_of_int t) else Inl FloatToIntUndefined)"
| "u32_of_double a = Inl FloatToIntUndefined"

section \<open>The statistics object\<close>

text \<open>\<^verbatim>\<open>unsigned long\<close> has 32 bits on the target.\<close>

type_synonym time = "32 word"

record statistics =
  startTime :: time
  goodFrames :: u16
  showFrames :: u16
  totalFrames :: u16
  finalGoodFrames :: u16
  finalShowFrames :: u16
  finalTotalFrames :: u16
  milliampsSum :: u64
  underpowerDesiredMilliampsSum :: u64
  underpowerFramesCount :: u64
  framesCount :: u64
  underpowerPercentSum :: fpval
  powerPercentSum :: fpval

text \<open>The object as its member initialisers leave it: every field zero.\<close>

definition initial_statistics :: statistics where
  "initial_statistics = \<lparr> startTime = 0, goodFrames = 0, showFrames = 0, totalFrames = 0,
     finalGoodFrames = 0, finalShowFrames = 0, finalTotalFrames = 0,
     milliampsSum = 0, underpowerDesiredMilliampsSum = 0, underpowerFramesCount = 0,
     framesCount = 0, underpowerPercentSum = Fin 0, powerPercentSum = Fin 0 \<rparr>"

definition getStartTime :: "statistics \<Rightarrow> time" where
  "getStartTime s = startTime s"

definition increaseTotal :: "statistics \<Rightarrow> statistics" where
  "increaseTotal s = s\<lparr>totalFrames := totalFrames s + 1\<rparr>"

definition increaseShow :: "statistics \<Rightarrow> statistics" where
  "increaseShow s = s\<lparr>showFrames := showFrames s + 1\<rparr>"

definition increaseGood :: "statistics \<Rightarrow> statistics" where
  "increaseGood s = s\<lparr>goodFrames := goodFrames s + 1\<rparr>"

definition getGoodFrames :: "statistics \<Rightarrow> u16" where
  "getGoodFrames s = goodFrames s"

text \<open>
  The test \<^verbatim>\<open>std::fabs(1 - underpowerPercentage) < 0.00001\<close>: the subtraction and the
  absolute value are in \<^verbatim>\<open>float\<close>, the literal is a \<^verbatim>\<open>double\<close>, and the conversion of
  the left side to \<^verbatim>\<open>double\<close> for the comparison is exact.
\<close>

definition current_limited :: "fpval \<Rightarrow> bool" where
  "current_limited underpowerPercentage =
     fp_less (fp_abs (fp_sub to_float (to_float 1) underpowerPercentage))
       (to_double (1 / 100000))"

definition updatePowerStats :: "fpval \<Rightarrow> fpval \<Rightarrow> u32 \<Rightarrow> u32 \<Rightarrow> statistics \<Rightarrow> statistics" where
  "updatePowerStats powerPercentage underpowerPercentage milliamps underpowerDesiredMilliamps s =
     (let s1 = s\<lparr>framesCount := framesCount s + 1\<rparr>;
          s2 = (if current_limited underpowerPercentage
                then s1\<lparr>underpowerFramesCount := underpowerFramesCount s1 + 1,
                        underpowerPercentSum :=
                          fp_add to_double (underpowerPercentSum s1) underpowerPercentage,
                        underpowerDesiredMilliampsSum :=
                          underpowerDesiredMilliampsSum s1 + ucast underpowerDesiredMilliamps\<rparr>
                else s1)
      in s2\<lparr>powerPercentSum := fp_add to_double (powerPercentSum s2) powerPercentage,
             milliampsSum := milliampsSum s2 + ucast milliamps,
             underpowerDesiredMilliampsSum :=
               underpowerDesiredMilliampsSum s2 + ucast underpowerDesiredMilliamps\<rparr>)"

definition update :: "time \<Rightarrow> statistics \<Rightarrow> statistics" where
  "update currentTime s =
     (let s1 = (if 0 < totalFrames s
                then s\<lparr>finalShowFrames := showFrames s,
                       finalGoodFrames := min (goodFrames s) (totalFrames s),
                       finalTotalFrames := totalFrames s\<rparr>
                else s)
      in s1\<lparr>startTime := currentTime, goodFrames := 0, totalFrames := 0, showFrames := 0\<rparr>)"

definition reset :: "time \<Rightarrow> statistics \<Rightarrow> statistics" where
  "reset currentTime s = s\<lparr>startTime := currentTime,
     finalShowFrames := 0, finalGoodFrames := 0, finalTotalFrames := 0,
     goodFrames := 0, totalFrames := 0, showFrames := 0,
     milliampsSum := 0, underpowerDesiredMilliampsSum := 0, underpowerFramesCount := 0,
     framesCount := 0, underpowerPercentSum := Fin 0, powerPercentSum := Fin 0\<rparr>"

definition lightReset :: "time \<Rightarrow> bool \<Rightarrow> statistics \<Rightarrow> statistics" where
  "lightReset curTime hasData s =
     (let s1 = (if hasData then s\<lparr>startTime := curTime\<rparr> else s)
      in s1\<lparr>goodFrames := 0, totalFrames := 0, showFrames := 0\<rparr>)"

subsection \<open>The report\<close>

text \<open>
  The local variables of \<^verbatim>\<open>print\<close>, as functions of the object. The conversions to
  \<^verbatim>\<open>double\<close> of the two floating sums are the identity on the target.
\<close>

definition powerPercentAverage :: "statistics \<Rightarrow> fpval" where
  "powerPercentAverage s =
     fp_mul to_float
       (float_of_double (fp_div to_double (powerPercentSum s) (double_of_u64 (framesCount s))))
       (to_float 100)"

definition milliampsAverage :: "statistics \<Rightarrow> fault + u32" where
  "milliampsAverage s =
     u32_of_double (fp_div to_double (double_of_u64 (milliampsSum s))
       (double_of_u64 (framesCount s)))"

definition underpowerPercentAverage :: "statistics \<Rightarrow> fpval" where
  "underpowerPercentAverage s =
     fp_mul to_float
       (float_of_double (fp_div to_double (underpowerPercentSum s)
          (double_of_u64 (underpowerFramesCount s))))
       (to_float 100)"

definition underpowerRequestedMilliampsAverage :: "statistics \<Rightarrow> fault + u32" where
  "underpowerRequestedMilliampsAverage s =
     u32_of_double (fp_div to_double (double_of_u64 (underpowerDesiredMilliampsSum s))
       (double_of_u64 (underpowerFramesCount s)))"

text \<open>
  What \<^verbatim>\<open>print\<close> hands to \<^verbatim>\<open>snprintf\<close>, argument by argument. The stack and heap
  figures of the first line come from the operating system and are left out.
  \<^verbatim>\<open>finalTotalFrames - finalGoodFrames\<close> is computed in \<^verbatim>\<open>int\<close> after promotion; the
  two percentages of the second and third line are unsigned integer divisions.
\<close>

record report =
  r_finalShowFrames :: u16
  r_finalTotalFrames :: u16
  r_finalGoodFrames :: u16
  r_incomplete :: int
  r_framesCount :: u64
  r_underpowerFramesCount :: u64
  r_underpowerFramesPercent :: u64
  r_milliampsAverage :: u32
  r_underpowerRequestedMilliampsAverage :: u32
  r_requestedMorePercent :: u32
  r_powerPercentAverage :: fpval
  r_underpowerPercentAverage :: fpval

definition print :: "time \<Rightarrow> statistics \<Rightarrow> fault + statistics \<times> report" where
  "print curTime s =
     (let s' = s\<lparr>startTime := curTime, goodFrames := 0, totalFrames := 0, showFrames := 0\<rparr>
      in case milliampsAverage s' of
           Inl e \<Rightarrow> Inl e
         | Inr ma \<Rightarrow>
        (case underpowerRequestedMilliampsAverage s' of
           Inl e \<Rightarrow> Inl e
         | Inr ura \<Rightarrow>
             if framesCount s' = 0 then Inl DivisionByZero
             else if ma = 0 then Inl DivisionByZero
             else Inr (s',
               \<lparr> r_finalShowFrames = finalShowFrames s',
                 r_finalTotalFrames = finalTotalFrames s',
                 r_finalGoodFrames = finalGoodFrames s',
                 r_incomplete = uint (finalTotalFrames s') - uint (finalGoodFrames s'),
                 r_framesCount = framesCount s',
                 r_underpowerFramesCount = underpowerFramesCount s',
                 r_underpowerFramesPercent = underpowerFramesCount s' * 100 div framesCount s',
                 r_milliampsAverage = ma,
                 r_underpowerRequestedMilliampsAverage = ura,
                 r_requestedMorePercent = ura * 100 div ma,
                 r_powerPercentAverage = powerPercentAverage s',
                 r_underpowerPercentAverage = underpowerPercentAverage s' \<rparr>)))"

subsection \<open>Sequences of calls\<close>

datatype frame_call = IncreaseTotal | IncreaseGood | IncreaseShow

fun apply_frame_call :: "frame_call \<Rightarrow> statistics \<Rightarrow> statistics" where
  "apply_frame_call IncreaseTotal s = increaseTotal s"
| "apply_frame_call IncreaseGood s = increaseGood s"
| "apply_frame_call IncreaseShow s = increaseShow s"

text \<open>One call of the power limiter: the four arguments of \<^verbatim>\<open>updatePowerStats\<close>.\<close>

type_synonym power_call = "fpval \<times> fpval \<times> u32 \<times> u32"

fun apply_power_call :: "power_call \<Rightarrow> statistics \<Rightarrow> statistics" where
  "apply_power_call (p, u, m, d) s = updatePowerStats p u m d s"

datatype call =
    Frame frame_call
  | UpdatePowerStats fpval fpval u32 u32
  | Update time
  | Print time
  | Reset time
  | LightReset time bool

fun exec :: "call \<Rightarrow> statistics \<Rightarrow> fault + statistics" where
  "exec (Frame c) s = Inr (apply_frame_call c s)"
| "exec (UpdatePowerStats p u m d) s = Inr (updatePowerStats p u m d s)"
| "exec (Update t) s = Inr (update t s)"
| "exec (Print t) s = (case print t s of Inl e \<Rightarrow> Inl e | Inr (s', r) \<Rightarrow> Inr s')"
| "exec (Reset t) s = Inr (reset t s)"
| "exec (LightReset t hasData) s = Inr (lightReset t hasData s)"

fun run :: "call list \<Rightarrow> statistics \<Rightarrow> fault + statistics" where
  "run [] s = Inr s"
| "run (c # cs) s = (case exec c s of Inl e \<Rightarrow> Inl e | Inr s' \<Rightarrow> run cs s')"

subsection \<open>Predicates of the claims\<close>

text \<open>The snapshot invariant: the last completed period has no more good frames than frames.\<close>

definition snapshot_inv :: "statistics \<Rightarrow> bool" where
  "snapshot_inv s = (finalGoodFrames s \<le> finalTotalFrames s)"

text \<open>A call of the power limiter that \<^verbatim>\<open>updatePowerStats\<close> classifies as current-limited.\<close>

definition limited_call :: "power_call \<Rightarrow> bool" where
  "limited_call c = (case c of (p, u, m, d) \<Rightarrow> current_limited u)"

text \<open>
  The classification in the words of the specification: the argument, as the number it
  denotes, is within \<open>1 / 100000\<close> of 1. \<open>float_value\<close> holds of the values a
  \<^verbatim>\<open>float\<close> argument can have: the infinities, NaN and the numbers that binary32
  represents.
\<close>

definition spec_limited :: "fpval \<Rightarrow> bool" where
  "spec_limited u = (case u of Fin x \<Rightarrow> \<bar>1 - x\<bar> < 1 / 100000 | _ \<Rightarrow> False)"

definition float_value :: "fpval \<Rightarrow> bool" where
  "float_value u = (case u of Fin x \<Rightarrow> to_float x = Fin x | _ \<Rightarrow> True)"

definition spec_limited_call :: "power_call \<Rightarrow> bool" where
  "spec_limited_call c = (case c of (p, u, m, d) \<Rightarrow> spec_limited u)"

definition float_call :: "power_call \<Rightarrow> bool" where
  "float_call c = (case c of (p, u, m, d) \<Rightarrow> float_value u)"

text \<open>The \<^verbatim>\<open>milliamps\<close> argument of a call of the power limiter.\<close>

definition call_milliamps :: "power_call \<Rightarrow> u32" where
  "call_milliamps c = (case c of (p, u, m, d) \<Rightarrow> m)"

section \<open>Rounding\<close>

lemma rne_of_int [simp]: "rne (of_int z) = z"
  by (simp add: rne_def)

lemma rne_nearest:
  assumes "\<bar>x - of_int n\<bar> < 1 / 2"
  shows "rne x = n"
proof (cases "of_int n \<le> x")
  case True
  with assms have "\<lfloor>x\<rfloor> = n" by (intro floor_unique) simp_all
  with assms True show ?thesis by (simp add: rne_def)
next
  case False
  with assms have "\<lfloor>x\<rfloor> = n - 1" by (intro floor_unique) simp_all
  with assms False show ?thesis by (simp add: rne_def Let_def)
qed

lemma rne_tie_below:
  assumes "x = of_int n + 1 / 2" and "even n"
  shows "rne x = n"
proof -
  have "\<lfloor>x\<rfloor> = n" unfolding assms(1) by (intro floor_unique) simp_all
  with assms show ?thesis by (simp add: rne_def)
qed

lemma rne_tie_above:
  assumes "x = of_int n - 1 / 2" and "even n"
  shows "rne x = n"
proof -
  have "\<lfloor>x\<rfloor> = n - 1" unfolding assms(1) by (intro floor_unique) simp_all
  with assms show ?thesis by (simp add: rne_def Let_def)
qed

lemma bitlen_floor:
  fixes y :: rat
  assumes "2 ^ K \<le> y" and "y < 2 ^ Suc K"
  shows "bitlen \<lfloor>y\<rfloor> = int K + 1"
proof -
  have lo: "2 ^ K \<le> \<lfloor>y\<rfloor>"
    using assms(1) by (simp add: le_floor_iff)
  have hi: "\<lfloor>y\<rfloor> < 2 ^ Suc K"
    using assms(2) by (simp add: floor_less_iff)
  have "0 \<le> \<lfloor>y\<rfloor> - 2 ^ K" and "\<lfloor>y\<rfloor> - 2 ^ K < 2 ^ K"
    using lo hi by simp_all
  then show ?thesis
    using bitlen_twopow_add_eq [of "\<lfloor>y\<rfloor> - 2 ^ K" K] by simp
qed

lemma round_mag_scaled:
  assumes "2 ^ (p - 1) \<le> z" and "z < 2 ^ p" and "0 < p" and "x * 2 ^ b = z * 2 ^ n"
  shows "round_mag p b x = of_int (rne z) * 2 ^ n / 2 ^ b"
proof -
  obtain p' where p: "p = Suc p'"
    using \<open>0 < p\<close> by (cases p) simp_all
  have "2 ^ (p' + n) \<le> z * 2 ^ n"
    using assms(1) by (simp add: p power_add)
  moreover have "z * 2 ^ n < 2 ^ Suc (p' + n)"
    using assms(2) by (simp add: p power_add)
  ultimately have "bitlen \<lfloor>z * 2 ^ n\<rfloor> = int (p' + n) + 1"
    by (rule bitlen_floor)
  then have "nat (bitlen \<lfloor>x * 2 ^ b\<rfloor> - int p) = n"
    by (simp add: assms(4) p)
  then show ?thesis
    by (simp add: round_mag_def Let_def assms(4))
qed

lemma round_mag_up:
  assumes "u \<le> b" and "0 < p" and "2 ^ (p - 1) \<le> x * 2 ^ u" and "x * 2 ^ u < 2 ^ p"
  shows "round_mag p b x = of_int (rne (x * 2 ^ u)) / 2 ^ u"
proof -
  have b: "(2::rat) ^ b = 2 ^ u * 2 ^ (b - u)"
    using \<open>u \<le> b\<close> by (simp flip: power_add)
  have "round_mag p b x = of_int (rne (x * 2 ^ u)) * 2 ^ (b - u) / 2 ^ b"
    using assms(3,4,2) by (rule round_mag_scaled) (simp add: b)
  then show ?thesis by (simp add: b)
qed

lemma round_mag_down:
  assumes "0 < p" and "2 ^ (p - 1) \<le> x / 2 ^ t" and "x / 2 ^ t < 2 ^ p"
  shows "round_mag p b x = of_int (rne (x / 2 ^ t)) * 2 ^ t"
proof -
  have "round_mag p b x = of_int (rne (x / 2 ^ t)) * 2 ^ (t + b) / 2 ^ b"
    using assms(2,3,1) by (rule round_mag_scaled) (simp add: power_add)
  then show ?thesis by (simp add: power_add)
qed

lemma round_mag_0 [simp]: "round_mag p b 0 = 0"
  by (simp add: round_mag_def rne_def)

lemma fp_round_0 [simp]: "fp_round p b emax 0 = Fin 0"
proof -
  have "(0::rat) < 2 ^ Suc emax" by simp
  then have "\<not> (2::rat) ^ Suc emax \<le> 0" by (simp only: not_le)
  then show ?thesis by (simp add: fp_round_def)
qed

lemma fp_round_up:
  assumes "0 < x" and "u \<le> b" and "0 < p" and "2 ^ (p - 1) \<le> x * 2 ^ u" and "x * 2 ^ u < 2 ^ p"
    and "of_int (rne (x * 2 ^ u)) / 2 ^ u = r" and "r < 2 ^ Suc emax"
  shows "fp_round p b emax x = Fin r"
  using assms round_mag_up [of u b p x] by (simp add: fp_round_def Let_def)

lemma fp_round_down:
  assumes "0 < x" and "0 < p" and "2 ^ (p - 1) \<le> x / 2 ^ t" and "x / 2 ^ t < 2 ^ p"
    and "of_int (rne (x / 2 ^ t)) * 2 ^ t = r" and "r < 2 ^ Suc emax"
  shows "fp_round p b emax x = Fin r"
  using assms round_mag_down [of p x t b] by (simp add: fp_round_def Let_def)

text \<open>
  Rounding is exact on a number with fewer than \<open>p\<close> significant bits and a small
  denominator; in particular integers below \<open>2 ^ p\<close> are representable.
\<close>

lemma round_mag_dyadic:
  assumes "j < 2 ^ p" and "e + p \<le> b" and "0 < p"
  shows "round_mag p b (of_nat j / 2 ^ e) = of_nat j / 2 ^ e"
proof (cases "j = 0")
  case True
  then show ?thesis by simp
next
  case False
  then have pos: "0 < int j" by simp
  have "1 \<le> bitlen (int j)"
    using pos by (simp add: bitlen_ge_iff_power)
  define l where "l = Suc (nat (bitlen (int j) - 1))"
  have l_eq: "nat (bitlen (int j)) = l"
    using \<open>1 \<le> bitlen (int j)\<close> by (simp add: l_def)
  have l: "2 ^ (l - 1) \<le> int j" "int j < 2 ^ l"
    using bitlen_bounds [OF pos] unfolding l_eq by (simp_all add: l_def)
  have "0 < l" by (simp add: l_def)
  have "l \<le> p"
  proof (rule ccontr)
    assume "\<not> l \<le> p"
    then have "p \<le> l - 1" by simp
    then have "(2::int) ^ p \<le> 2 ^ (l - 1)" by (intro power_increasing) simp_all
    with l(1) assms(1) show False
      by (metis of_nat_less_iff of_nat_numeral of_nat_power not_less order_trans)
  qed
  define u where "u = p - l"
  have pu: "p = l + u" "p - 1 = (l - 1) + u"
    using \<open>l \<le> p\<close> \<open>0 < l\<close> by (simp_all add: u_def)
  have scale: "(of_nat j / 2 ^ e :: rat) * 2 ^ (e + u) = of_nat j * 2 ^ u"
    by (simp add: power_add)
  have lo: "(2::rat) ^ (p - 1) \<le> of_nat j * 2 ^ u"
  proof -
    have "(of_int (2 ^ (l - 1)) :: rat) \<le> of_int (int j)"
      using l(1) by (simp only: of_int_le_iff)
    then have "(2::rat) ^ (l - 1) \<le> of_nat j" by simp
    then have "(2::rat) ^ (l - 1) * 2 ^ u \<le> of_nat j * 2 ^ u"
      by (intro mult_right_mono) simp_all
    then show ?thesis by (simp only: pu(2) power_add)
  qed
  have hi: "(of_nat j :: rat) * 2 ^ u < 2 ^ p"
  proof -
    have "(of_int (int j) :: rat) < of_int (2 ^ l)"
      using l(2) by (simp only: of_int_less_iff)
    then have "(of_nat j :: rat) < 2 ^ l" by simp
    then have "(of_nat j :: rat) * 2 ^ u < 2 ^ l * 2 ^ u"
      by (intro mult_strict_right_mono) simp_all
    then show ?thesis by (simp only: pu(1) power_add)
  qed
  have int_form: "(of_nat j :: rat) * 2 ^ u = of_int (int j * 2 ^ u)" by simp
  have "e + u \<le> b" using assms(2) by (simp add: u_def)
  then have "round_mag p b (of_nat j / 2 ^ e) =
      of_int (rne (of_nat j / 2 ^ e * 2 ^ (e + u))) / 2 ^ (e + u)"
    using \<open>0 < p\<close> lo hi unfolding scale [symmetric] by (rule round_mag_up)
  also have "\<dots> = of_nat j / 2 ^ e"
    unfolding scale int_form rne_of_int by (simp add: power_add)
  finally show ?thesis .
qed

lemma fp_round_of_nat:
  assumes "k < 2 ^ p" and "p \<le> b" and "p \<le> Suc emax" and "0 < p"
  shows "fp_round p b emax (of_nat k) = Fin (of_nat k)"
proof -
  have r: "round_mag p b (of_nat k) = of_nat k"
    using round_mag_dyadic [of k p 0 b] assms by simp
  have "(of_nat k :: rat) < 2 ^ p"
    using assms(1) by (metis of_nat_less_iff of_nat_numeral of_nat_power)
  also have "\<dots> \<le> 2 ^ Suc emax"
    using assms(3) by (intro power_increasing) simp_all
  finally have "\<not> (2 ^ Suc emax \<le> (of_nat k :: rat))" by simp
  then show ?thesis
    by (simp add: fp_round_def Let_def r)
qed

lemma to_double_of_nat: "k < 2 ^ 53 \<Longrightarrow> to_double (of_nat k) = Fin (of_nat k)"
  by (simp add: to_double_def fp_round_of_nat)

lemma to_float_of_nat: "k < 2 ^ 24 \<Longrightarrow> to_float (of_nat k) = Fin (of_nat k)"
  by (simp add: to_float_def fp_round_of_nat)

lemma to_float_numeral: "numeral k < (2::nat) ^ 24 \<Longrightarrow> to_float (numeral k) = Fin (numeral k)"
  using to_float_of_nat [of "numeral k"] by simp

lemma to_double_numeral: "numeral k < (2::nat) ^ 53 \<Longrightarrow> to_double (numeral k) = Fin (numeral k)"
  using to_double_of_nat [of "numeral k"] by simp

lemma to_float_1: "to_float 1 = Fin 1"
  using to_float_of_nat [of 1] by simp
lemma to_double_1: "to_double 1 = Fin 1"
  using to_double_of_nat [of 1] by simp

lemma to_double_eps: "to_double (1 / 100000) = Fin (5902958103587057 / 2 ^ 69)"
proof -
  have "rne (1 / 100000 * 2 ^ 69) = 5902958103587057"
    by (rule rne_nearest) simp
  then show ?thesis
    unfolding to_double_def by (intro fp_round_up [where u = 69]) simp_all
qed

lemma to_double_half: "to_double (1 / 2) = Fin (1 / 2)"
  unfolding to_double_def
  by (rule fp_round_up [where u = 53]) (simp_all add: rne_nearest)

lemma to_float_half: "to_float (1 / 2) = Fin (1 / 2)"
  unfolding to_float_def
  by (rule fp_round_up [where u = 24]) (simp_all add: rne_nearest)

lemma to_double_big: "to_double 9007203543416829 = Fin 9007203543416828"
proof -
  have "rne (9007203543416829 / 2 ^ 1) = 4503601771708414"
    by (rule rne_tie_below) simp_all
  then show ?thesis
    unfolding to_double_def by (intro fp_round_down [where t = 1]) simp_all
qed

lemma to_double_quot:
  "to_double (9007203543416828 / 2097153) = Fin (9007199248449535 / 2097152)"
proof -
  have "rne (9007203543416828 / 2097153 * 2 ^ 21) = 9007199248449535"
    by (rule rne_nearest) simp
  then show ?thesis
    unfolding to_double_def by (intro fp_round_up [where u = 21]) simp_all
qed

text \<open>Rounding does not fall below a power of two that the value has reached.\<close>

lemma rne_ge_floor: "\<lfloor>z\<rfloor> \<le> rne z"
  by (simp add: rne_def Let_def)

lemma round_mag_lower:
  assumes "2 ^ c \<le> a * 2 ^ b" and "p \<le> Suc c" and "0 < p"
  shows "2 ^ c / 2 ^ b \<le> round_mag p b a"
proof -
  define y where "y = a * 2 ^ b"
  have "(1::rat) \<le> 2 ^ c" by simp
  with assms(1) have y1: "1 \<le> y" unfolding y_def by linarith
  then have pos: "0 < \<lfloor>y\<rfloor>" by (simp add: less_floor_iff)
  then have "1 \<le> bitlen \<lfloor>y\<rfloor>" by (simp add: bitlen_ge_iff_power)
  define K where "K = nat (bitlen \<lfloor>y\<rfloor> - 1)"
  have bl: "nat (bitlen \<lfloor>y\<rfloor>) = Suc K"
    using \<open>1 \<le> bitlen \<lfloor>y\<rfloor>\<close> by (simp add: K_def)
  have fl: "2 ^ K \<le> \<lfloor>y\<rfloor>" "\<lfloor>y\<rfloor> < 2 ^ Suc K"
    using bitlen_bounds [OF pos] unfolding bl by (simp_all add: K_def)
  have lo: "2 ^ K \<le> y" using fl(1) by (simp add: le_floor_iff)
  have hi: "y < 2 ^ Suc K" using fl(2) by (simp add: floor_less_iff)
  have "(2::rat) ^ c < 2 ^ Suc K"
    using assms(1) hi unfolding y_def by (rule le_less_trans)
  then have "c < Suc K" by (simp only: power_strict_increasing_iff one_less_numeral_iff semiring_norm)
  then have cK: "c \<le> K" by simp
  define n where "n = Suc K - p"
  have pn: "Suc K = p + n" "K = (p - 1) + n"
    using assms(2,3) cK by (simp_all add: n_def)
  define z where "z = y / 2 ^ n"
  have zn: "z * 2 ^ n = y" by (simp add: z_def)
  have zlo: "2 ^ (p - 1) \<le> z"
    using lo unfolding z_def by (simp add: pos_le_divide_eq pn(2) power_add)
  have zhi: "z < 2 ^ p"
    using hi unfolding z_def by (simp only: pn(1) power_add) (simp add: pos_divide_less_eq)
  have rm: "round_mag p b a = of_int (rne z) * 2 ^ n / 2 ^ b"
    using zlo zhi assms(3) by (rule round_mag_scaled) (simp add: zn y_def)
  have "2 ^ (p - 1) \<le> \<lfloor>z\<rfloor>" using zlo by (simp add: le_floor_iff)
  also have "\<dots> \<le> rne z" by (rule rne_ge_floor)
  finally have "(of_int (2 ^ (p - 1)) :: rat) \<le> of_int (rne z)" by (simp only: of_int_le_iff)
  then have "(2::rat) ^ (p - 1) \<le> of_int (rne z)" by simp
  then have "(2::rat) ^ (p - 1) * 2 ^ n \<le> of_int (rne z) * 2 ^ n"
    by (intro mult_right_mono) simp_all
  then have "(2::rat) ^ K \<le> of_int (rne z) * 2 ^ n"
    by (simp only: pn(2) power_add)
  moreover have "(2::rat) ^ c \<le> 2 ^ K"
    using cK by (intro power_increasing) simp_all
  ultimately have "(2::rat) ^ c \<le> of_int (rne z) * 2 ^ n" by (rule order_trans [rotated])
  then show ?thesis
    unfolding rm by (simp add: divide_right_mono)
qed

lemma to_float_far:
  assumes "1 / 2 \<le> \<bar>d\<bar>" and "e \<le> 1 / 2"
  shows "\<not> fp_less (fp_abs (to_float d)) (Fin e)"
proof -
  have "2 ^ 148 \<le> \<bar>d\<bar> * 2 ^ 149"
    using assms(1) by simp
  then have "2 ^ 148 / 2 ^ 149 \<le> round_mag 24 149 \<bar>d\<bar>"
    by (rule round_mag_lower) simp_all
  then have r: "1 / 2 \<le> round_mag 24 149 \<bar>d\<bar>" by simp
  with assms(2) have "\<not> round_mag 24 149 \<bar>d\<bar> < e" by simp
  moreover from r have "\<bar>round_mag 24 149 \<bar>d\<bar>\<bar> = round_mag 24 149 \<bar>d\<bar>" by simp
  ultimately show ?thesis
    by (cases "d < 0") (simp_all add: to_float_def fp_round_def Let_def abs_if)
qed

lemma to_float_dyadic:
  assumes "\<bar>i\<bar> < 2 ^ 24"
  shows "to_float (of_int i / 2 ^ 24) = Fin (of_int i / 2 ^ 24)"
proof -
  define j where "j = nat \<bar>i\<bar>"
  have j: "j < 2 ^ 24" using assms by (simp add: j_def nat_less_iff)
  have abs: "\<bar>of_int i / 2 ^ 24 :: rat\<bar> = of_nat j / 2 ^ 24"
    by (simp add: j_def)
  have r: "round_mag 24 149 (of_nat j / 2 ^ 24) = of_nat j / 2 ^ 24"
    using j by (rule round_mag_dyadic) simp_all
  have "(of_nat j :: rat) < 2 ^ 24"
    using j by (metis of_nat_less_iff of_nat_numeral of_nat_power)
  then have small: "\<not> (2 ^ Suc 127 \<le> (of_nat j / 2 ^ 24 :: rat))" by simp
  show ?thesis
    unfolding to_float_def fp_round_def Let_def abs r using small
    by (simp add: j_def abs_if)
qed

lemma float_near_one_dyadic:
  assumes "to_float x = Fin x" and "1 / 2 \<le> x" and "x < 2"
  obtains n :: int where "x = of_int n / 2 ^ 24"
proof -
  have pos: "0 < x" using assms(2) by simp
  from assms(1) pos have rm: "round_mag 24 149 x = x"
    by (simp add: to_float_def fp_round_def Let_def split: if_splits)
  show ?thesis
  proof (cases "x < 1")
    case True
    have "round_mag 24 149 x = of_int (rne (x * 2 ^ 24)) / 2 ^ 24"
      using assms(2) True by (intro round_mag_up) simp_all
    with rm have "x = of_int (rne (x * 2 ^ 24)) / 2 ^ 24" by simp
    then show ?thesis by (rule that)
  next
    case False
    have "round_mag 24 149 x = of_int (rne (x * 2 ^ 23)) / 2 ^ 23"
      using assms(3) False by (intro round_mag_up) simp_all
    with rm have "x = of_int (rne (x * 2 ^ 23)) / 2 ^ 23" by simp
    then have "x = of_int (2 * rne (x * 2 ^ 23)) / 2 ^ 24" by simp
    then show ?thesis by (rule that)
  qed
qed

section \<open>Frame counters and the snapshot\<close>

lemmas frame_defs = increaseTotal_def increaseGood_def increaseShow_def

lemma apply_frame_call_finals:
  "finalGoodFrames (apply_frame_call c s) = finalGoodFrames s"
  "finalShowFrames (apply_frame_call c s) = finalShowFrames s"
  "finalTotalFrames (apply_frame_call c s) = finalTotalFrames s"
  by (cases c; simp add: frame_defs)+

lemma update_fields_nonempty:
  assumes "0 < totalFrames s"
  shows "finalGoodFrames (update t s) = min (goodFrames s) (totalFrames s)"
    and "finalTotalFrames (update t s) = totalFrames s"
    and "finalShowFrames (update t s) = showFrames s"
  using assms by (simp_all add: update_def)

lemma funpow_total:
  "totalFrames ((apply_frame_call IncreaseTotal ^^ n) s) = totalFrames s + of_nat n"
  "goodFrames ((apply_frame_call IncreaseTotal ^^ n) s) = goodFrames s"
  "showFrames ((apply_frame_call IncreaseTotal ^^ n) s) = showFrames s"
  by (induction n; simp add: frame_defs)+

lemma funpow_good:
  "goodFrames ((apply_frame_call IncreaseGood ^^ n) s) = goodFrames s + of_nat n"
  "totalFrames ((apply_frame_call IncreaseGood ^^ n) s) = totalFrames s"
  "showFrames ((apply_frame_call IncreaseGood ^^ n) s) = showFrames s"
  by (induction n; simp add: frame_defs)+

lemma funpow_show:
  "showFrames ((apply_frame_call IncreaseShow ^^ n) s) = showFrames s + of_nat n"
  "totalFrames ((apply_frame_call IncreaseShow ^^ n) s) = totalFrames s"
  "goodFrames ((apply_frame_call IncreaseShow ^^ n) s) = goodFrames s"
  by (induction n; simp add: frame_defs)+

lemmas fold_counts = funpow_total funpow_good funpow_show

lemma update_counters:
  "goodFrames (update t s) = 0" "totalFrames (update t s) = 0" "showFrames (update t s) = 0"
  "startTime (update t s) = t"
  by (simp_all add: update_def Let_def)

text \<open>
  Claim C4. Take any sequence of \<^verbatim>\<open>increaseTotal\<close>, \<^verbatim>\<open>increaseGood\<close> and
  \<^verbatim>\<open>increaseShow\<close> calls after an \<^verbatim>\<open>update\<close>. If the period ends with
  \<open>totalFrames\<close> greater than zero, the next \<^verbatim>\<open>update\<close> sets \<open>finalGoodFrames\<close> to the
  minimum of \<open>goodFrames\<close> and \<open>totalFrames\<close> as they were before it, and
  \<open>finalTotalFrames\<close> to \<open>totalFrames\<close>. After 10 \<^verbatim>\<open>increaseTotal\<close> and 12
  \<^verbatim>\<open>increaseGood\<close> calls, \<open>finalGoodFrames\<close> is 10.
\<close>

theorem update_snapshot_clamps:
  "(0 < totalFrames (fold apply_frame_call cs (update t0 s0)) \<longrightarrow>
      finalGoodFrames (update t (fold apply_frame_call cs (update t0 s0))) =
        min (goodFrames (fold apply_frame_call cs (update t0 s0)))
            (totalFrames (fold apply_frame_call cs (update t0 s0))) \<and>
      finalTotalFrames (update t (fold apply_frame_call cs (update t0 s0))) =
        totalFrames (fold apply_frame_call cs (update t0 s0)))
   \<and> finalGoodFrames (update t (fold apply_frame_call
         (replicate 10 IncreaseTotal @ replicate 12 IncreaseGood) (update t0 s0))) = 10"
proof (intro conjI impI)
  let ?s = "fold apply_frame_call (replicate 10 IncreaseTotal @ replicate 12 IncreaseGood)
              (update t0 s0)"
  have t: "totalFrames ?s = 10" and g: "goodFrames ?s = 12"
    by (simp_all add: fold_counts update_counters)
  then show "finalGoodFrames (update t ?s) = 10"
    by (simp add: update_def)
qed (simp_all add: update_fields_nonempty)

theorem update_snapshot_clamps_witness:
  "0 < totalFrames (fold apply_frame_call [IncreaseTotal, IncreaseGood, IncreaseGood]
        (update 0 initial_statistics)) \<and>
   finalGoodFrames (update 7 (fold apply_frame_call [IncreaseTotal, IncreaseGood, IncreaseGood]
        (update 0 initial_statistics))) = 1 \<and>
   finalTotalFrames (update 7 (fold apply_frame_call [IncreaseTotal, IncreaseGood, IncreaseGood]
        (update 0 initial_statistics))) = 1"
  using update_snapshot_clamps [of "[IncreaseTotal, IncreaseGood, IncreaseGood]" 0
      initial_statistics 7]
  by (simp add: frame_defs update_def initial_statistics_def)

text \<open>
  Claim C7. When \<open>totalFrames\<close> is zero, \<^verbatim>\<open>update\<close> leaves the three snapshot fields as
  they were: it only sets \<open>startTime\<close> and zeroes the counters of the period.
\<close>

theorem update_empty_period:
  assumes "totalFrames s = 0"
  shows "finalGoodFrames (update t s) = finalGoodFrames s \<and>
         finalShowFrames (update t s) = finalShowFrames s \<and>
         finalTotalFrames (update t s) = finalTotalFrames s \<and>
         update t s = s\<lparr>startTime := t, goodFrames := 0, totalFrames := 0, showFrames := 0\<rparr>"
  using assms by (simp add: update_def)

theorem update_empty_period_witness:
  "totalFrames (initial_statistics\<lparr>finalGoodFrames := 3, finalShowFrames := 4,
       finalTotalFrames := 5, goodFrames := 2, showFrames := 6\<rparr>) = 0 \<and>
   finalGoodFrames (update 9 (initial_statistics\<lparr>finalGoodFrames := 3, finalShowFrames := 4,
       finalTotalFrames := 5, goodFrames := 2, showFrames := 6\<rparr>)) = 3 \<and>
   finalShowFrames (update 9 (initial_statistics\<lparr>finalGoodFrames := 3, finalShowFrames := 4,
       finalTotalFrames := 5, goodFrames := 2, showFrames := 6\<rparr>)) = 4 \<and>
   finalTotalFrames (update 9 (initial_statistics\<lparr>finalGoodFrames := 3, finalShowFrames := 4,
       finalTotalFrames := 5, goodFrames := 2, showFrames := 6\<rparr>)) = 5 \<and>
   startTime (update 9 (initial_statistics\<lparr>finalGoodFrames := 3, finalShowFrames := 4,
       finalTotalFrames := 5, goodFrames := 2, showFrames := 6\<rparr>)) = 9 \<and>
   showFrames (update 9 (initial_statistics\<lparr>finalGoodFrames := 3, finalShowFrames := 4,
       finalTotalFrames := 5, goodFrames := 2, showFrames := 6\<rparr>)) = 0"
  using update_empty_period [of "initial_statistics\<lparr>finalGoodFrames := 3, finalShowFrames := 4,
       finalTotalFrames := 5, goodFrames := 2, showFrames := 6\<rparr>" 9]
  by (simp add: initial_statistics_def)

text \<open>
  Claim C8. \<^verbatim>\<open>update\<close> leaves the six cumulative power fields unchanged, and
  \<^verbatim>\<open>lightReset\<close> without data changes nothing except the three counters of the period,
  which it zeroes: \<open>startTime\<close> and the cumulative power fields stay.
\<close>

theorem update_lightReset_keep_power_sums:
  "milliampsSum (update t s) = milliampsSum s \<and>
   underpowerDesiredMilliampsSum (update t s) = underpowerDesiredMilliampsSum s \<and>
   underpowerFramesCount (update t s) = underpowerFramesCount s \<and>
   framesCount (update t s) = framesCount s \<and>
   underpowerPercentSum (update t s) = underpowerPercentSum s \<and>
   powerPercentSum (update t s) = powerPercentSum s \<and>
   lightReset t False s = s\<lparr>goodFrames := 0, totalFrames := 0, showFrames := 0\<rparr> \<and>
   startTime (lightReset t False s) = startTime s \<and>
   milliampsSum (lightReset t False s) = milliampsSum s \<and>
   underpowerDesiredMilliampsSum (lightReset t False s) = underpowerDesiredMilliampsSum s \<and>
   underpowerFramesCount (lightReset t False s) = underpowerFramesCount s \<and>
   framesCount (lightReset t False s) = framesCount s \<and>
   underpowerPercentSum (lightReset t False s) = underpowerPercentSum s \<and>
   powerPercentSum (lightReset t False s) = powerPercentSum s \<and>
   goodFrames (lightReset t False s) = 0 \<and>
   totalFrames (lightReset t False s) = 0 \<and>
   showFrames (lightReset t False s) = 0"
  by (simp add: update_def lightReset_def Let_def)

text \<open>
  Claim C10. \<^verbatim>\<open>update\<close> copies \<open>showFrames\<close> into \<open>finalShowFrames\<close> as it is, so the
  snapshot can show more displayed frames than frames: two \<^verbatim>\<open>increaseShow\<close> calls and one
  \<^verbatim>\<open>increaseTotal\<close> call, then \<^verbatim>\<open>update\<close>, give \<open>finalShowFrames > finalTotalFrames\<close>.
\<close>

theorem finalShow_not_clamped:
  "(0 < totalFrames s \<longrightarrow> finalShowFrames (update t s) = showFrames s) \<and>
   finalTotalFrames (update t (fold apply_frame_call
       [IncreaseShow, IncreaseShow, IncreaseTotal] initial_statistics))
   < finalShowFrames (update t (fold apply_frame_call
       [IncreaseShow, IncreaseShow, IncreaseTotal] initial_statistics))"
  by (simp add: update_def frame_defs initial_statistics_def)

theorem finalShow_not_clamped_witness:
  "0 < totalFrames (increaseTotal (increaseShow (increaseShow initial_statistics))) \<and>
   finalShowFrames (update 1 (increaseTotal (increaseShow (increaseShow initial_statistics)))) = 2"
  using finalShow_not_clamped [of "increaseTotal (increaseShow (increaseShow initial_statistics))" 1]
  by (simp add: frame_defs initial_statistics_def)

section \<open>Power statistics\<close>

lemma to_float_0 [simp]: "to_float 0 = Fin 0"
  by (simp add: to_float_def)

lemma to_double_0 [simp]: "to_double 0 = Fin 0"
  by (simp add: to_double_def)

lemma current_limited_one: "current_limited (Fin 1)"
  by (simp add: current_limited_def fp_sub_def to_float_1 to_double_eps)

lemma not_current_limited_zero: "\<not> current_limited (Fin 0)"
  by (simp add: current_limited_def fp_sub_def to_float_1 to_double_eps)

text \<open>
  On every \<^verbatim>\<open>float\<close> value the test of the code agrees with the inequality of the
  specification on the exact numbers: \<open>1 - x\<close> is computed exactly for \<open>x\<close> between
  \<open>1 / 2\<close> and 2, and no multiple of \<open>1 / 2 ^ 24\<close> lies between \<open>1 / 100000\<close> and
  the \<^verbatim>\<open>double\<close> nearest to it.
\<close>

lemma eps_gap_int:
  fixes a :: int
  assumes "0 \<le> a"
  shows "(a * 2 ^ 45 < 5902958103587057) = (a * 100000 < 2 ^ 24)"
proof (cases "a \<le> 167")
  case True
  then show ?thesis by simp
next
  case False
  then have "168 \<le> a" by simp
  then show ?thesis by simp
qed

lemma eps_gap:
  fixes i :: int
  shows "(\<bar>of_int i / 2 ^ 24 :: rat\<bar> < 5902958103587057 / 2 ^ 69) =
         (\<bar>of_int i / 2 ^ 24 :: rat\<bar> < 1 / 100000)"
proof -
  define a where "a = \<bar>i\<bar>"
  have abs: "\<bar>of_int i / 2 ^ 24 :: rat\<bar> = of_int a / 2 ^ 24"
    by (simp add: a_def)
  have l: "((of_int a / 2 ^ 24 :: rat) < 5902958103587057 / 2 ^ 69) =
      (a * 2 ^ 45 < 5902958103587057)"
  proof -
    have "((of_int a / 2 ^ 24 :: rat) < 5902958103587057 / 2 ^ 69) =
        ((of_int (a * 2 ^ 45) :: rat) < of_int 5902958103587057)"
      by (simp add: field_simps)
    then show ?thesis by (simp only: of_int_less_iff)
  qed
  have r: "((of_int a / 2 ^ 24 :: rat) < 1 / 100000) = (a * 100000 < 2 ^ 24)"
  proof -
    have "((of_int a / 2 ^ 24 :: rat) < 1 / 100000) =
        ((of_int (a * 100000) :: rat) < of_int (2 ^ 24))"
      by (simp add: field_simps)
    then show ?thesis by (simp only: of_int_less_iff)
  qed
  have "0 \<le> a" by (simp add: a_def)
  then show ?thesis
    unfolding abs l r by (rule eps_gap_int)
qed

lemma current_limited_Fin:
  "current_limited (Fin x) =
     fp_less (fp_abs (to_float (1 - x))) (Fin (5902958103587057 / 2 ^ 69))"
  by (simp add: current_limited_def fp_sub_def to_float_1 to_double_eps)

lemma current_limited_spec:
  assumes "float_value u"
  shows "current_limited u = spec_limited u"
proof (cases u)
  case (Fin x)
  with assms have fl: "to_float x = Fin x" by (simp add: float_value_def)
  show ?thesis
  proof (cases "1 / 2 \<le> x \<and> x < 2")
    case True
    with fl obtain n :: int where n: "x = of_int n / 2 ^ 24"
      by (auto elim: float_near_one_dyadic)
    define i where "i = 2 ^ 24 - n"
    have d: "1 - x = of_int i / 2 ^ 24" by (simp add: n i_def field_simps)
    from True have "\<bar>1 - x\<bar> < 1" by (simp add: abs_if)
    then have "\<bar>of_int i :: rat\<bar> < of_int (2 ^ 24)" unfolding d by (simp add: field_simps)
    then have "\<bar>i\<bar> < 2 ^ 24"
      by (simp only: of_int_abs [symmetric] of_int_less_iff)
    then have ex: "to_float (of_int i / 2 ^ 24) = Fin (of_int i / 2 ^ 24)"
      by (rule to_float_dyadic)
    have "current_limited (Fin x) =
        (\<bar>of_int i / 2 ^ 24 :: rat\<bar> < 5902958103587057 / 2 ^ 69)"
      by (simp only: current_limited_Fin d ex fp_abs.simps fp_less.simps)
    also have "\<dots> = (\<bar>of_int i / 2 ^ 24 :: rat\<bar> < 1 / 100000)"
      by (rule eps_gap)
    also have "\<dots> = spec_limited (Fin x)"
      by (simp only: spec_limited_def fpval.case d)
    finally show ?thesis by (simp only: Fin)
  next
    case False
    then have far: "1 / 2 \<le> \<bar>1 - x\<bar>" by (auto simp: abs_if)
    then have "\<not> fp_less (fp_abs (to_float (1 - x))) (Fin (5902958103587057 / 2 ^ 69))"
      by (rule to_float_far) simp
    moreover from far have "\<not> \<bar>1 - x\<bar> < 1 / 100000" by simp
    ultimately show ?thesis
      unfolding Fin current_limited_Fin by (simp add: spec_limited_def)
  qed
qed (simp_all add: current_limited_def fp_sub_def to_float_1 to_double_eps spec_limited_def)

lemma updatePowerStats_fields:
  "framesCount (updatePowerStats p u m d s) = framesCount s + 1"
  "underpowerFramesCount (updatePowerStats p u m d s) =
     underpowerFramesCount s + (if current_limited u then 1 else 0)"
  "milliampsSum (updatePowerStats p u m d s) = milliampsSum s + ucast m"
  "underpowerDesiredMilliampsSum (updatePowerStats p u m d s) =
     underpowerDesiredMilliampsSum s + (if current_limited u then 2 * ucast d else ucast d)"
  "powerPercentSum (updatePowerStats p u m d s) = fp_add to_double (powerPercentSum s) p"
  "underpowerPercentSum (updatePowerStats p u m d s) =
     (if current_limited u then fp_add to_double (underpowerPercentSum s) u
      else underpowerPercentSum s)"
  by (simp_all add: updatePowerStats_def Let_def)

lemma updatePowerStats_frame_fields:
  "startTime (updatePowerStats p u m d s) = startTime s"
  "goodFrames (updatePowerStats p u m d s) = goodFrames s"
  "showFrames (updatePowerStats p u m d s) = showFrames s"
  "totalFrames (updatePowerStats p u m d s) = totalFrames s"
  "finalGoodFrames (updatePowerStats p u m d s) = finalGoodFrames s"
  "finalShowFrames (updatePowerStats p u m d s) = finalShowFrames s"
  "finalTotalFrames (updatePowerStats p u m d s) = finalTotalFrames s"
  by (simp_all add: updatePowerStats_def Let_def)

lemma unat_u32_less: "unat (d :: u32) < 2 ^ 32"
  using unsigned_less [of d, where ?'a = nat] by simp

lemma unat_ucast_u32: "unat (ucast (d :: u32) :: u64) = unat d"
proof -
  have "unat d < 2 ^ 64"
    using unat_u32_less [of d] by simp
  then show ?thesis
    by (simp add: unsigned_ucast_eq take_bit_nat_eq_self)
qed

text \<open>
  Claim C2. A call of \<^verbatim>\<open>updatePowerStats\<close> that is classified current-limited adds
  twice \<open>underpowerDesiredMilliamps\<close> to \<open>underpowerDesiredMilliampsSum\<close>, any other call
  adds it once. For a \<^verbatim>\<open>float\<close> argument the classification is
  \<open>\<bar>1 - underpowerPercentage\<bar> < 1 / 100000\<close>. The sum is a 64-bit counter: the equations
  hold in its arithmetic, and on the natural numbers as long as the sum stays below
  \<open>2 ^ 64\<close>.
\<close>

theorem updatePowerStats_desired_sum:
  "(float_value u \<longrightarrow> current_limited u = spec_limited u) \<and>
   (current_limited u \<longrightarrow>
      underpowerDesiredMilliampsSum (updatePowerStats p u m d s) =
        underpowerDesiredMilliampsSum s + 2 * ucast d) \<and>
   (\<not> current_limited u \<longrightarrow>
      underpowerDesiredMilliampsSum (updatePowerStats p u m d s) =
        underpowerDesiredMilliampsSum s + ucast d) \<and>
   (current_limited u \<longrightarrow> unat (underpowerDesiredMilliampsSum s) + 2 * unat d < 2 ^ 64 \<longrightarrow>
      unat (underpowerDesiredMilliampsSum (updatePowerStats p u m d s)) =
        unat (underpowerDesiredMilliampsSum s) + 2 * unat d) \<and>
   (\<not> current_limited u \<longrightarrow> unat (underpowerDesiredMilliampsSum s) + unat d < 2 ^ 64 \<longrightarrow>
      unat (underpowerDesiredMilliampsSum (updatePowerStats p u m d s)) =
        unat (underpowerDesiredMilliampsSum s) + unat d)"
proof -
  have two: "unat (2 * ucast d :: u64) = 2 * unat d"
  proof -
    have "unat d < 2 ^ 32" by (rule unat_u32_less)
    then show ?thesis by (simp add: unat_word_ariths unat_ucast_u32)
  qed
  show ?thesis
    by (simp add: updatePowerStats_fields unat_word_ariths two unat_ucast_u32
        current_limited_spec)
qed

theorem updatePowerStats_desired_sum_witness:
  "float_value (Fin 1) \<and> spec_limited (Fin 1) \<and> current_limited (Fin 1) \<and>
   float_value (Fin 0) \<and> \<not> spec_limited (Fin 0) \<and> \<not> current_limited (Fin 0) \<and>
   unat (underpowerDesiredMilliampsSum initial_statistics) + 2 * unat (2000 :: u32) < 2 ^ 64 \<and>
   underpowerDesiredMilliampsSum (updatePowerStats (Fin (1 / 2)) (Fin 1) 1000 2000
      initial_statistics) = 4000 \<and>
   unat (underpowerDesiredMilliampsSum (updatePowerStats (Fin (1 / 2)) (Fin 1) 1000 2000
      initial_statistics)) = 4000 \<and>
   underpowerDesiredMilliampsSum (updatePowerStats (Fin (1 / 2)) (Fin 0) 1000 2000
      initial_statistics) = 2000 \<and>
   unat (underpowerDesiredMilliampsSum (updatePowerStats (Fin (1 / 2)) (Fin 0) 1000 2000
      initial_statistics)) = 2000"
proof -
  have f: "float_value (Fin 1)" "float_value (Fin 0)"
    by (simp_all add: float_value_def to_float_1)
  have sp: "spec_limited (Fin 1)" "\<not> spec_limited (Fin 0)"
    by (simp_all add: spec_limited_def)
  from updatePowerStats_desired_sum [of "Fin 1" "Fin (1 / 2)" 1000 2000 initial_statistics]
    updatePowerStats_desired_sum [of "Fin 0" "Fin (1 / 2)" 1000 2000 initial_statistics] f sp
  show ?thesis by (simp add: initial_statistics_def)
qed

lemma fold_power_framesCount:
  "framesCount (fold apply_power_call cs s) = framesCount s + of_nat (length cs)"
proof (induction cs arbitrary: s)
  case Nil
  then show ?case by simp
next
  case (Cons c cs)
  obtain p u m d where c: "c = (p, u, m, d)" by (cases c) auto
  show ?case by (simp add: Cons.IH c updatePowerStats_fields)
qed

lemma fold_power_underpowerFramesCount:
  "underpowerFramesCount (fold apply_power_call cs s) =
     underpowerFramesCount s + of_nat (length (filter limited_call cs))"
proof (induction cs arbitrary: s)
  case Nil
  then show ?case by simp
next
  case (Cons c cs)
  obtain p u m d where c: "c = (p, u, m, d)" by (cases c) auto
  show ?case by (simp add: Cons.IH c updatePowerStats_fields limited_call_def)
qed

lemma fold_power_milliampsSum:
  assumes "\<forall>c \<in> set cs. call_milliamps c = m"
  shows "milliampsSum (fold apply_power_call cs s) = milliampsSum s + of_nat (length cs) * ucast m"
  using assms
proof (induction cs arbitrary: s)
  case Nil
  then show ?case by simp
next
  case (Cons c cs)
  obtain p u m' d where c: "c = (p, u, m', d)" by (cases c) auto
  with Cons.prems have "m' = m" by (simp add: call_milliamps_def)
  with Cons show ?case by (simp add: c updatePowerStats_fields algebra_simps)
qed

lemma reset_power_fields:
  "framesCount (reset t s) = 0" "underpowerFramesCount (reset t s) = 0"
  "milliampsSum (reset t s) = 0" "underpowerDesiredMilliampsSum (reset t s) = 0"
  "powerPercentSum (reset t s) = Fin 0" "underpowerPercentSum (reset t s) = Fin 0"
  by (simp_all add: reset_def)

lemma unat_of_nat_u64: "n < 2 ^ 64 \<Longrightarrow> unat (of_nat n :: u64) = n"
  by (simp add: unat_of_nat)

lemma filter_limited_call_spec:
  assumes "\<forall>c \<in> set cs. float_call c"
  shows "filter limited_call cs = filter spec_limited_call cs"
proof (rule filter_cong [OF refl])
  fix c assume "c \<in> set cs"
  with assms have "float_call c" by simp
  then show "limited_call c = spec_limited_call c"
    by (cases c) (simp add: float_call_def limited_call_def spec_limited_call_def
        current_limited_spec)
qed

text \<open>
  Claim C5. After a reset and any sequence of \<^verbatim>\<open>updatePowerStats\<close> calls,
  \<open>framesCount\<close> is the number of calls and \<open>underpowerFramesCount\<close> the number of calls
  classified current-limited, which for \<^verbatim>\<open>float\<close> arguments are the calls with
  \<open>\<bar>1 - underpowerPercentage\<bar> < 1 / 100000\<close>. Both are 64-bit counters: the equations hold
  in their arithmetic, and on the natural numbers for fewer than \<open>2 ^ 64\<close> calls.
\<close>

theorem power_frame_counts:
  "framesCount (fold apply_power_call cs (reset t s)) = of_nat (length cs) \<and>
   underpowerFramesCount (fold apply_power_call cs (reset t s)) =
     of_nat (length (filter limited_call cs)) \<and>
   ((\<forall>c \<in> set cs. float_call c) \<longrightarrow>
      filter limited_call cs = filter spec_limited_call cs) \<and>
   (length cs < 2 ^ 64 \<longrightarrow>
      unat (framesCount (fold apply_power_call cs (reset t s))) = length cs \<and>
      unat (underpowerFramesCount (fold apply_power_call cs (reset t s))) =
        length (filter limited_call cs))"
proof -
  have "length (filter limited_call cs) < 2 ^ 64" if "length cs < 2 ^ 64"
    using that length_filter_le [of limited_call cs] by (rule le_less_trans [rotated])
  then show ?thesis
    by (simp add: fold_power_framesCount fold_power_underpowerFramesCount reset_power_fields
        unat_of_nat_u64 filter_limited_call_spec)
qed

theorem power_frame_counts_witness:
  "float_call (Fin (1 / 2), Fin 1, 1000, 2000) \<and> float_call (Fin 0, Fin 0, 5, 7) \<and>
   float_call (Fin 1, Fin 1, 3, 4) \<and>
   length [(Fin (1 / 2), Fin 1, 1000 :: u32, 2000 :: u32), (Fin 0, Fin 0, 5, 7),
       (Fin 1, Fin 1, 3, 4)] < 2 ^ 64 \<and>
   filter spec_limited_call
     [(Fin (1 / 2), Fin 1, 1000, 2000), (Fin 0, Fin 0, 5, 7), (Fin 1, Fin 1, 3, 4)] =
     [(Fin (1 / 2), Fin 1, 1000, 2000), (Fin 1, Fin 1, 3, 4)] \<and>
   filter limited_call
     [(Fin (1 / 2), Fin 1, 1000, 2000), (Fin 0, Fin 0, 5, 7), (Fin 1, Fin 1, 3, 4)] =
     [(Fin (1 / 2), Fin 1, 1000, 2000), (Fin 1, Fin 1, 3, 4)] \<and>
   unat (framesCount (fold apply_power_call
     [(Fin (1 / 2), Fin 1, 1000, 2000), (Fin 0, Fin 0, 5, 7), (Fin 1, Fin 1, 3, 4)]
     (reset 0 initial_statistics))) = 3 \<and>
   unat (underpowerFramesCount (fold apply_power_call
     [(Fin (1 / 2), Fin 1, 1000, 2000), (Fin 0, Fin 0, 5, 7), (Fin 1, Fin 1, 3, 4)]
     (reset 0 initial_statistics))) = 2"
proof -
  have f: "float_call (Fin (1 / 2), Fin 1, 1000, 2000)" "float_call (Fin 0, Fin 0, 5, 7)"
    "float_call (Fin 1, Fin 1, 3, 4)"
    by (simp_all add: float_call_def float_value_def to_float_1)
  have sp: "filter spec_limited_call
     [(Fin (1 / 2), Fin 1, 1000, 2000), (Fin 0, Fin 0, 5, 7), (Fin 1, Fin 1, 3, 4)] =
     [(Fin (1 / 2), Fin 1, 1000, 2000), (Fin 1, Fin 1, 3, 4)]"
    by (simp add: spec_limited_call_def spec_limited_def)
  from power_frame_counts [of "[(Fin (1 / 2), Fin 1, 1000, 2000), (Fin 0, Fin 0, 5, 7),
      (Fin 1, Fin 1, 3, 4)]" 0 initial_statistics] f sp
  show ?thesis by simp
qed

section \<open>The report\<close>

lemma double_of_u64_small:
  "unat w < 2 ^ 53 \<Longrightarrow> double_of_u64 w = Fin (of_nat (unat w))"
  unfolding double_of_u64_def by (rule to_double_of_nat)

lemma double_of_u64_0 [simp]: "double_of_u64 0 = Fin 0"
  by (simp add: double_of_u64_def)

lemma trunc_rat_of_nat: "trunc_rat (of_nat n) = int n"
  by (simp add: trunc_rat_def)

lemma u32_of_double_of_nat:
  assumes "n < 2 ^ 32"
  shows "u32_of_double (Fin (of_nat n)) = Inr (of_nat n)"
proof -
  have "int n < 2 ^ 32"
    using assms by (metis of_nat_less_iff of_nat_numeral of_nat_power)
  then show ?thesis
    unfolding u32_of_double.simps trunc_rat_of_nat Let_def by simp
qed

lemma print_returns_state:
  "print t s = Inr (s', r) \<Longrightarrow>
     s' = s\<lparr>startTime := t, goodFrames := 0, totalFrames := 0, showFrames := 0\<rparr>"
  by (auto simp: print_def Let_def split: sum.splits if_splits)

text \<open>The state after one call \<^verbatim>\<open>updatePowerStats(0.5, 1.0, 1000, 2000)\<close> on the initial object.\<close>

lemma one_limited_frame_state:
  "updatePowerStats (Fin (1 / 2)) (Fin 1) 1000 2000 initial_statistics =
     initial_statistics\<lparr>milliampsSum := 1000, underpowerDesiredMilliampsSum := 4000,
       underpowerFramesCount := 1, framesCount := 1,
       underpowerPercentSum := Fin 1, powerPercentSum := Fin (1 / 2)\<rparr>"
  by (simp add: updatePowerStats_def Let_def current_limited_one initial_statistics_def
      to_double_half to_double_1)

lemma averages_one_limited_frame:
  assumes "framesCount s = 1" and "underpowerFramesCount s = 1" and "milliampsSum s = 1000"
    and "underpowerDesiredMilliampsSum s = 4000" and "underpowerPercentSum s = Fin 1"
    and "powerPercentSum s = Fin (1 / 2)"
  shows "milliampsAverage s = Inr 1000"
    and "underpowerRequestedMilliampsAverage s = Inr 4000"
    and "powerPercentAverage s = Fin 50"
    and "underpowerPercentAverage s = Fin 100"
proof -
  have one: "double_of_u64 1 = Fin 1"
    using double_of_u64_small [of 1] by simp
  have m: "double_of_u64 1000 = Fin 1000"
    using double_of_u64_small [of 1000] by simp
  have d: "double_of_u64 4000 = Fin 4000"
    using double_of_u64_small [of 4000] by simp
  show "milliampsAverage s = Inr 1000"
    using u32_of_double_of_nat [of 1000]
    by (simp add: milliampsAverage_def assms one m to_double_numeral)
  show "underpowerRequestedMilliampsAverage s = Inr 4000"
    using u32_of_double_of_nat [of 4000]
    by (simp add: underpowerRequestedMilliampsAverage_def assms one d to_double_numeral)
  show "powerPercentAverage s = Fin 50"
    by (simp add: powerPercentAverage_def assms one to_double_half to_float_half
        to_float_numeral)
  show "underpowerPercentAverage s = Fin 100"
    by (simp add: underpowerPercentAverage_def assms one to_double_1 to_float_1
        to_float_numeral)
qed

lemma print_one_limited_frame:
  "print t (updatePowerStats (Fin (1 / 2)) (Fin 1) 1000 2000 initial_statistics) =
     Inr (initial_statistics\<lparr>startTime := t, milliampsSum := 1000,
            underpowerDesiredMilliampsSum := 4000, underpowerFramesCount := 1,
            framesCount := 1, underpowerPercentSum := Fin 1, powerPercentSum := Fin (1 / 2)\<rparr>,
          \<lparr> r_finalShowFrames = 0, r_finalTotalFrames = 0, r_finalGoodFrames = 0,
            r_incomplete = 0, r_framesCount = 1, r_underpowerFramesCount = 1,
            r_underpowerFramesPercent = 100, r_milliampsAverage = 1000,
            r_underpowerRequestedMilliampsAverage = 4000, r_requestedMorePercent = 400,
            r_powerPercentAverage = Fin 50, r_underpowerPercentAverage = Fin 100 \<rparr>)"
proof -
  let ?s = "initial_statistics\<lparr>startTime := t, milliampsSum := 1000,
            underpowerDesiredMilliampsSum := 4000, underpowerFramesCount := 1,
            framesCount := 1, underpowerPercentSum := Fin 1, powerPercentSum := Fin (1 / 2)\<rparr>"
  have s: "(updatePowerStats (Fin (1 / 2)) (Fin 1) 1000 2000 initial_statistics)
      \<lparr>startTime := t, goodFrames := 0, totalFrames := 0, showFrames := 0\<rparr> = ?s"
    unfolding one_limited_frame_state by (simp add: initial_statistics_def)
  have avg: "milliampsAverage ?s = Inr 1000" "underpowerRequestedMilliampsAverage ?s = Inr 4000"
    "powerPercentAverage ?s = Fin 50" "underpowerPercentAverage ?s = Fin 100"
    by (rule averages_one_limited_frame; simp)+
  have div: "(4000 :: u32) * 100 div 1000 = 400"
    by (simp add: word_div_def)
  show ?thesis
    unfolding print_def Let_def s avg
    by (simp add: initial_statistics_def div)
qed

text \<open>
  Claim C1. One call \<^verbatim>\<open>updatePowerStats(0.5, 1.0, 1000, 2000)\<close> on the initial object,
  then the report: \<open>framesCount\<close> and \<open>underpowerFramesCount\<close> are 1, the average current
  is 1000, the two percentages are 50 and 100, but the average requested current is 4000,
  not 2000, since the limited frame adds its 2000 mA twice.
\<close>

theorem report_after_one_limited_frame:
  "case print t (updatePowerStats (Fin (1 / 2)) (Fin 1) 1000 2000 initial_statistics) of
     Inl e \<Rightarrow> False
   | Inr (s', r) \<Rightarrow>
       r_framesCount r = 1 \<and> r_underpowerFramesCount r = 1 \<and> r_milliampsAverage r = 1000 \<and>
       r_underpowerRequestedMilliampsAverage r = 4000 \<and>
       r_underpowerRequestedMilliampsAverage r \<noteq> 2000 \<and>
       r_powerPercentAverage r = Fin 50 \<and> r_underpowerPercentAverage r = Fin 100"
  by (simp add: print_one_limited_frame)

text \<open>
  Claim C3. Straight after \<^verbatim>\<open>reset\<close> both counts are zero: the two percentage averages
  are \<open>0 / 0\<close>, a NaN, the two current averages convert a NaN to an unsigned integer,
  and \<^verbatim>\<open>print\<close> does not return a report.
\<close>

theorem report_after_reset_faults:
  "print t' (reset t s) = Inl FloatToIntUndefined \<and>
   powerPercentAverage (reset t s) = NaN \<and>
   milliampsAverage (reset t s) = Inl FloatToIntUndefined \<and>
   underpowerPercentAverage (reset t s) = NaN \<and>
   underpowerRequestedMilliampsAverage (reset t s) = Inl FloatToIntUndefined"
  by (simp add: print_def Let_def milliampsAverage_def powerPercentAverage_def
      underpowerPercentAverage_def underpowerRequestedMilliampsAverage_def reset_def)

lemma exec_snapshot_inv:
  assumes "snapshot_inv s" and "exec c s = Inr s'"
  shows "snapshot_inv s'"
proof (cases c)
  case (Frame f)
  with assms show ?thesis
    by (auto simp: snapshot_inv_def apply_frame_call_finals)
next
  case (UpdatePowerStats p u m d)
  with assms show ?thesis
    by (auto simp: snapshot_inv_def updatePowerStats_frame_fields)
next
  case (Update t)
  with assms show ?thesis
    by (auto simp: snapshot_inv_def update_def)
next
  case (Print t)
  with assms(2) obtain r where "print t s = Inr (s', r)"
    by (auto split: sum.splits)
  then have "s' = s\<lparr>startTime := t, goodFrames := 0, totalFrames := 0, showFrames := 0\<rparr>"
    by (rule print_returns_state)
  with assms(1) show ?thesis by (simp add: snapshot_inv_def)
next
  case (Reset t)
  with assms show ?thesis
    by (auto simp: snapshot_inv_def reset_def)
next
  case (LightReset t hasData)
  with assms show ?thesis
    by (auto simp: snapshot_inv_def lightReset_def)
qed

lemma run_snapshot_inv:
  "snapshot_inv s \<Longrightarrow> run cs s = Inr s' \<Longrightarrow> snapshot_inv s'"
proof (induction cs arbitrary: s)
  case Nil
  then show ?case by simp
next
  case (Cons c cs)
  from Cons.prems(2) obtain s1 where s1: "exec c s = Inr s1" and rest: "run cs s1 = Inr s'"
    by (auto split: sum.splits)
  from Cons.prems(1) s1 have "snapshot_inv s1" by (rule exec_snapshot_inv)
  then show ?case using rest by (rule Cons.IH)
qed

text \<open>
  Claim C6. \<open>finalGoodFrames \<le> finalTotalFrames\<close> holds for the initial object, every
  operation that returns keeps it, and so it holds after every sequence of operations.
\<close>

theorem snapshot_inv_invariant:
  "snapshot_inv initial_statistics \<and>
   (snapshot_inv s \<longrightarrow> exec c s = Inr s' \<longrightarrow> snapshot_inv s') \<and>
   (run cs initial_statistics = Inr s'' \<longrightarrow> snapshot_inv s'')"
proof -
  have init: "snapshot_inv initial_statistics"
    by (simp add: snapshot_inv_def initial_statistics_def)
  with run_snapshot_inv [of initial_statistics cs s''] exec_snapshot_inv [of s c s']
  show ?thesis by blast
qed

theorem snapshot_inv_invariant_witness:
  "snapshot_inv (updatePowerStats (Fin (1 / 2)) (Fin 1) 1000 2000 initial_statistics) \<and>
   exec (Print 5) (updatePowerStats (Fin (1 / 2)) (Fin 1) 1000 2000 initial_statistics) =
     Inr (initial_statistics\<lparr>startTime := 5, milliampsSum := 1000,
            underpowerDesiredMilliampsSum := 4000, underpowerFramesCount := 1,
            framesCount := 1, underpowerPercentSum := Fin 1, powerPercentSum := Fin (1 / 2)\<rparr>) \<and>
   snapshot_inv (initial_statistics\<lparr>startTime := 5, milliampsSum := 1000,
            underpowerDesiredMilliampsSum := 4000, underpowerFramesCount := 1,
            framesCount := 1, underpowerPercentSum := Fin 1, powerPercentSum := Fin (1 / 2)\<rparr>) \<and>
   run [Frame IncreaseTotal, Frame IncreaseGood, Frame IncreaseGood, Update 3]
     initial_statistics =
     Inr (initial_statistics\<lparr>startTime := 3, finalGoodFrames := 1, finalTotalFrames := 1\<rparr>) \<and>
   snapshot_inv (initial_statistics\<lparr>startTime := 3, finalGoodFrames := 1,
     finalTotalFrames := 1\<rparr>)"
proof -
  have r: "run [Frame IncreaseTotal, Frame IncreaseGood, Frame IncreaseGood, Update 3]
     initial_statistics =
     Inr (initial_statistics\<lparr>startTime := 3, finalGoodFrames := 1, finalTotalFrames := 1\<rparr>)"
    by (simp add: frame_defs update_def initial_statistics_def)
  have e: "exec (Print 5) (updatePowerStats (Fin (1 / 2)) (Fin 1) 1000 2000 initial_statistics) =
     Inr (initial_statistics\<lparr>startTime := 5, milliampsSum := 1000,
            underpowerDesiredMilliampsSum := 4000, underpowerFramesCount := 1,
            framesCount := 1, underpowerPercentSum := Fin 1, powerPercentSum := Fin (1 / 2)\<rparr>)"
    by (simp add: print_one_limited_frame)
  have i: "snapshot_inv (updatePowerStats (Fin (1 / 2)) (Fin 1) 1000 2000 initial_statistics)"
    by (simp add: snapshot_inv_def updatePowerStats_frame_fields initial_statistics_def)
  from snapshot_inv_invariant [of "updatePowerStats (Fin (1 / 2)) (Fin 1) 1000 2000
        initial_statistics" "Print 5" _
      "[Frame IncreaseTotal, Frame IncreaseGood, Frame IncreaseGood, Update 3]" _] r e i
  show ?thesis by simp
qed

lemma trunc_rat_quot: "trunc_rat (9007199248449535 / 2097152) = 4294967292"
proof -
  have "\<lfloor>9007199248449535 / 2097152 :: rat\<rfloor> = 4294967292"
    by (rule floor_unique) simp_all
  then show ?thesis by (simp add: trunc_rat_def)
qed

lemma replicate_power_sums:
  "milliampsSum (fold apply_power_call (replicate n (p, u, m, d)) s) =
     milliampsSum s + of_nat n * ucast m"
  "framesCount (fold apply_power_call (replicate n (p, u, m, d)) s) = framesCount s + of_nat n"
proof -
  have "\<forall>c \<in> set (replicate n (p, u, m, d)). call_milliamps c = m"
    by (simp add: call_milliamps_def)
  from fold_power_milliampsSum [OF this, of s]
  show "milliampsSum (fold apply_power_call (replicate n (p, u, m, d)) s) =
     milliampsSum s + of_nat n * ucast m" by simp
  from fold_power_framesCount [of "replicate n (p, u, m, d)" s]
  show "framesCount (fold apply_power_call (replicate n (p, u, m, d)) s) =
     framesCount s + of_nat n" by simp
qed

lemma replicate_no_desired:
  "underpowerDesiredMilliampsSum ((apply_power_call (p, u, m, 0) ^^ n) s) =
     underpowerDesiredMilliampsSum s"
  by (induction n) (simp_all add: updatePowerStats_fields)

lemma replicate_limited_count:
  assumes "current_limited u"
  shows "underpowerFramesCount ((apply_power_call (p, u, m, d) ^^ n) s) =
     underpowerFramesCount s + of_nat n"
  using assms by (induction n) (simp_all add: updatePowerStats_fields)

text \<open>
  When neither conversion and neither division of \<^verbatim>\<open>print\<close> is undefined, it returns a
  report, and the report shows the average current of line 160.
\<close>

lemma print_shows_milliampsAverage:
  assumes "milliampsAverage s = Inr ma" and "underpowerRequestedMilliampsAverage s = Inr ura"
    and "framesCount s \<noteq> 0" and "ma \<noteq> 0"
  shows "map_sum id (r_milliampsAverage \<circ> snd) (print t s) = Inr ma"
proof -
  let ?s = "s\<lparr>startTime := t, goodFrames := 0, totalFrames := 0, showFrames := 0\<rparr>"
  have "milliampsAverage ?s = Inr ma"
    using assms(1) by (simp add: milliampsAverage_def)
  moreover have "underpowerRequestedMilliampsAverage ?s = Inr ura"
    using assms(2) by (simp add: underpowerRequestedMilliampsAverage_def)
  ultimately show ?thesis
    using assms(3,4) by (simp add: print_def Let_def)
qed

text \<open>
  Claim C9 as it is written, for every \<open>N\<close>, fails: beyond \<open>2 ^ 53\<close> the sum is rounded
  when it is converted to \<^verbatim>\<open>double\<close>. After a reset and 2097153 current-limited calls
  with 4294967293 mA, \<^verbatim>\<open>print\<close> returns a report, and its average current is
  4294967292.
\<close>

theorem milliamps_average_drift_counterexample:
  "map_sum id (r_milliampsAverage \<circ> snd)
     (print 0 (fold apply_power_call (replicate 2097153 (Fin 1, Fin 1, 4294967293, 0))
        (reset 0 initial_statistics))) = Inr 4294967292 \<and>
   map_sum id (r_milliampsAverage \<circ> snd)
     (print 0 (fold apply_power_call (replicate 2097153 (Fin 1, Fin 1, 4294967293, 0))
        (reset 0 initial_statistics))) \<noteq> Inr 4294967293"
proof -
  let ?s = "fold apply_power_call (replicate 2097153 (Fin 1, Fin 1, 4294967293, 0))
      (reset 0 initial_statistics)"
  have sum: "milliampsSum ?s = 9007203543416829"
    unfolding replicate_power_sums reset_power_fields by simp
  have cnt: "framesCount ?s = 2097153"
    unfolding replicate_power_sums reset_power_fields by simp
  have lim: "underpowerFramesCount ?s = 2097153"
    by (simp add: replicate_limited_count current_limited_one reset_power_fields)
  have des: "underpowerDesiredMilliampsSum ?s = 0"
    by (simp add: replicate_no_desired reset_power_fields)
  have a: "double_of_u64 9007203543416829 = Fin 9007203543416828"
    by (simp add: double_of_u64_def to_double_big)
  have b: "double_of_u64 2097153 = Fin 2097153"
    using double_of_u64_small [of 2097153] by simp
  have avg: "milliampsAverage ?s = Inr 4294967292"
    unfolding milliampsAverage_def sum cnt a b
    by (simp add: to_double_quot trunc_rat_quot)
  have req: "underpowerRequestedMilliampsAverage ?s = Inr 0"
    unfolding underpowerRequestedMilliampsAverage_def des lim b
    using u32_of_double_of_nat [of 0] by simp
  have "framesCount ?s \<noteq> 0" unfolding cnt by simp
  with avg req have "map_sum id (r_milliampsAverage \<circ> snd) (print 0 ?s) = Inr 4294967292"
    by (rule print_shows_milliampsAverage) simp
  then show ?thesis by simp
qed

lemma ucast_u32_of_nat: "(ucast (m :: u32) :: u64) = of_nat (unat m)"
  by simp

text \<open>
  Two calls with the same current and different requests, from a reset object, and the
  report \<^verbatim>\<open>print\<close> returns for them.
\<close>

lemma two_frames_state:
  "fold apply_power_call [(Fin (1 / 2), Fin 1, 1000, 2000), (Fin (1 / 2), Fin 1, 1000, 1000)]
     (reset 0 initial_statistics) =
   initial_statistics\<lparr>milliampsSum := 2000, underpowerDesiredMilliampsSum := 6000,
     underpowerFramesCount := 2, framesCount := 2,
     underpowerPercentSum := Fin 2, powerPercentSum := Fin 1\<rparr>"
  by (simp add: updatePowerStats_def Let_def current_limited_one initial_statistics_def
      reset_def to_double_half to_double_1 to_double_numeral)

lemma print_two_frames:
  "print 5 (fold apply_power_call
       [(Fin (1 / 2), Fin 1, 1000, 2000), (Fin (1 / 2), Fin 1, 1000, 1000)]
       (reset 0 initial_statistics)) =
     Inr (initial_statistics\<lparr>startTime := 5, milliampsSum := 2000,
            underpowerDesiredMilliampsSum := 6000, underpowerFramesCount := 2,
            framesCount := 2, underpowerPercentSum := Fin 2, powerPercentSum := Fin 1\<rparr>,
          \<lparr> r_finalShowFrames = 0, r_finalTotalFrames = 0, r_finalGoodFrames = 0,
            r_incomplete = 0, r_framesCount = 2, r_underpowerFramesCount = 2,
            r_underpowerFramesPercent = 100, r_milliampsAverage = 1000,
            r_underpowerRequestedMilliampsAverage = 3000, r_requestedMorePercent = 300,
            r_powerPercentAverage = Fin 50, r_underpowerPercentAverage = Fin 100 \<rparr>)"
proof -
  let ?s = "initial_statistics\<lparr>startTime := 5, milliampsSum := 2000,
            underpowerDesiredMilliampsSum := 6000, underpowerFramesCount := 2,
            framesCount := 2, underpowerPercentSum := Fin 2, powerPercentSum := Fin 1\<rparr>"
  have s: "(initial_statistics\<lparr>milliampsSum := 2000, underpowerDesiredMilliampsSum := 6000,
       underpowerFramesCount := 2, framesCount := 2,
       underpowerPercentSum := Fin 2, powerPercentSum := Fin 1\<rparr>)
      \<lparr>startTime := 5, goodFrames := 0, totalFrames := 0, showFrames := 0\<rparr> = ?s"
    by (simp add: initial_statistics_def)
  have two: "double_of_u64 2 = Fin 2"
    using double_of_u64_small [of 2] by simp
  have m: "double_of_u64 2000 = Fin 2000"
    using double_of_u64_small [of 2000] by simp
  have d: "double_of_u64 6000 = Fin 6000"
    using double_of_u64_small [of 6000] by simp
  have ma: "milliampsAverage ?s = Inr 1000"
    using u32_of_double_of_nat [of 1000]
    by (simp add: milliampsAverage_def two m to_double_numeral)
  have ura: "underpowerRequestedMilliampsAverage ?s = Inr 3000"
    using u32_of_double_of_nat [of 3000]
    by (simp add: underpowerRequestedMilliampsAverage_def two d to_double_numeral)
  have ppa: "powerPercentAverage ?s = Fin 50"
    by (simp add: powerPercentAverage_def two to_double_half to_float_half to_float_numeral)
  have upa: "underpowerPercentAverage ?s = Fin 100"
    by (simp add: underpowerPercentAverage_def two to_double_1 to_float_1 to_float_numeral)
  have div1: "(3000 :: u32) * 100 div 1000 = 300"
    by (simp add: word_div_def)
  have div2: "(2 :: u64) * 100 div 2 = 100"
    by (simp add: word_div_def)
  show ?thesis
    unfolding two_frames_state print_def Let_def s ma ura ppa upa
    by (simp add: initial_statistics_def div1 div2)
qed

lemma print_milliampsAverage:
  "print t s = Inr (s', r) \<Longrightarrow> milliampsAverage s = Inr (r_milliampsAverage r)"
  by (auto simp: print_def Let_def milliampsAverage_def split: sum.splits if_splits)

text \<open>
  Claim C9, amended. After a reset and \<open>N \<ge> 1\<close> calls of \<^verbatim>\<open>updatePowerStats\<close> that all
  pass \<open>milliamps = m\<close>, the average current that \<^verbatim>\<open>print\<close> computes, and shows in every
  report it returns, is exactly \<open>m\<close>, provided \<open>N\<close> and \<open>N * m\<close> are below \<open>2 ^ 53\<close>,
  where the conversions to \<^verbatim>\<open>double\<close> are exact.
\<close>

theorem milliamps_average_exact:
  assumes "cs \<noteq> []" and "\<forall>c \<in> set cs. call_milliamps c = m"
    and "length cs < 2 ^ 53" and "length cs * unat m < 2 ^ 53"
  shows "milliampsAverage (fold apply_power_call cs (reset t s)) = Inr m \<and>
    (print t' (fold apply_power_call cs (reset t s)) = Inr (s', r) \<longrightarrow>
       r_milliampsAverage r = m)"
proof -
  define n where "n = length cs"
  define k where "k = unat m"
  let ?s = "fold apply_power_call cs (reset t s)"
  have n: "0 < n" "n < 2 ^ 53" "n * k < 2 ^ 53"
    using assms by (simp_all add: n_def k_def)
  have k: "k < 2 ^ 32" unfolding k_def by (rule unat_u32_less)
  have m: "of_nat k = m" by (simp add: k_def)
  have "milliampsSum ?s = of_nat n * ucast m"
    using fold_power_milliampsSum [OF assms(2), of "reset t s"]
    by (simp add: reset_power_fields n_def)
  also have "\<dots> = of_nat (n * k)"
    by (simp add: k_def)
  finally have sum: "milliampsSum ?s = of_nat (n * k)" .
  have cnt: "framesCount ?s = of_nat n"
    by (simp add: fold_power_framesCount reset_power_fields n_def)
  have "n * k < 2 ^ 64" using n(3) by simp
  then have usum: "unat (of_nat (n * k) :: u64) = n * k" by (rule unat_of_nat_u64)
  have "n < 2 ^ 64" using n(2) by simp
  then have ucnt: "unat (of_nat n :: u64) = n" by (rule unat_of_nat_u64)
  have a: "double_of_u64 (of_nat (n * k)) = Fin (of_nat (n * k))"
    using double_of_u64_small [of "of_nat (n * k) :: u64"] n(3) unfolding usum by simp
  have b: "double_of_u64 (of_nat n) = Fin (of_nat n)"
    using double_of_u64_small [of "of_nat n :: u64"] n(2) unfolding ucnt by simp
  have q: "(of_nat (n * k) :: rat) / of_nat n = of_nat k"
    using n(1) by simp
  have "k < 2 ^ 53" using k by simp
  then have r: "to_double (of_nat k) = Fin (of_nat k)" by (rule to_double_of_nat)
  have "milliampsAverage ?s = u32_of_double (Fin (of_nat k))"
    unfolding milliampsAverage_def sum cnt a b using n(1) by (simp only: fp_div.simps q r) simp
  also have "\<dots> = Inr (of_nat k)" using k by (rule u32_of_double_of_nat)
  finally have avg: "milliampsAverage ?s = Inr m" by (simp only: m)
  have "r_milliampsAverage r = m" if "print t' ?s = Inr (s', r)"
    using print_milliampsAverage [OF that] avg by simp
  with avg show ?thesis by simp
qed

theorem milliamps_average_exact_witness:
  "[(Fin (1 / 2), Fin 1, 1000 :: u32, 2000 :: u32), (Fin (1 / 2), Fin 1, 1000, 1000)] \<noteq> [] \<and>
   call_milliamps (Fin (1 / 2), Fin 1, 1000, 2000) = 1000 \<and>
   call_milliamps (Fin (1 / 2), Fin 1, 1000, 1000) = 1000 \<and>
   length [(Fin (1 / 2), Fin 1, 1000 :: u32, 2000 :: u32), (Fin (1 / 2), Fin 1, 1000, 1000)] = 2 \<and>
   length [(Fin (1 / 2), Fin 1, 1000 :: u32, 2000 :: u32), (Fin (1 / 2), Fin 1, 1000, 1000)]
     < 2 ^ 53 \<and>
   length [(Fin (1 / 2), Fin 1, 1000 :: u32, 2000 :: u32), (Fin (1 / 2), Fin 1, 1000, 1000)]
     * unat (1000 :: u32) < 2 ^ 53 \<and>
   milliampsAverage (fold apply_power_call
     [(Fin (1 / 2), Fin 1, 1000, 2000), (Fin (1 / 2), Fin 1, 1000, 1000)]
     (reset 0 initial_statistics)) = Inr 1000 \<and>
   print 5 (fold apply_power_call
     [(Fin (1 / 2), Fin 1, 1000, 2000), (Fin (1 / 2), Fin 1, 1000, 1000)]
     (reset 0 initial_statistics)) =
     Inr (initial_statistics\<lparr>startTime := 5, milliampsSum := 2000,
            underpowerDesiredMilliampsSum := 6000, underpowerFramesCount := 2,
            framesCount := 2, underpowerPercentSum := Fin 2, powerPercentSum := Fin 1\<rparr>,
          \<lparr> r_finalShowFrames = 0, r_finalTotalFrames = 0, r_finalGoodFrames = 0,
            r_incomplete = 0, r_framesCount = 2, r_underpowerFramesCount = 2,
            r_underpowerFramesPercent = 100, r_milliampsAverage = 1000,
            r_underpowerRequestedMilliampsAverage = 3000, r_requestedMorePercent = 300,
            r_powerPercentAverage = Fin 50, r_underpowerPercentAverage = Fin 100 \<rparr>) \<and>
   r_milliampsAverage
     \<lparr> r_finalShowFrames = 0, r_finalTotalFrames = 0, r_finalGoodFrames = 0,
       r_incomplete = 0, r_framesCount = 2, r_underpowerFramesCount = 2,
       r_underpowerFramesPercent = 100, r_milliampsAverage = 1000,
       r_underpowerRequestedMilliampsAverage = 3000, r_requestedMorePercent = 300,
       r_powerPercentAverage = Fin 50, r_underpowerPercentAverage = Fin 100 \<rparr> = 1000"
proof -
  let ?cs = "[(Fin (1 / 2), Fin 1, 1000 :: u32, 2000 :: u32), (Fin (1 / 2), Fin 1, 1000, 1000)]"
  have h1: "?cs \<noteq> []" by simp
  have h2: "\<forall>c \<in> set ?cs. call_milliamps c = 1000" by (simp add: call_milliamps_def)
  have h3: "length ?cs < 2 ^ 53" by simp
  have h4: "length ?cs * unat (1000 :: u32) < 2 ^ 53" by simp
  from milliamps_average_exact [OF h1 h2 h3 h4, where t = 0 and s = initial_statistics
      and t' = 5
      and s' = "initial_statistics\<lparr>startTime := 5, milliampsSum := 2000,
            underpowerDesiredMilliampsSum := 6000, underpowerFramesCount := 2,
            framesCount := 2, underpowerPercentSum := Fin 2, powerPercentSum := Fin 1\<rparr>"
      and r = "\<lparr> r_finalShowFrames = 0, r_finalTotalFrames = 0, r_finalGoodFrames = 0,
            r_incomplete = 0, r_framesCount = 2, r_underpowerFramesCount = 2,
            r_underpowerFramesPercent = 100, r_milliampsAverage = 1000,
            r_underpowerRequestedMilliampsAverage = 3000, r_requestedMorePercent = 300,
            r_powerPercentAverage = Fin 50, r_underpowerPercentAverage = Fin 100 \<rparr>"]
    print_two_frames
  show ?thesis by (simp add: call_milliamps_def)
qed

end
